theory Spec2Isabelle
  imports Main "HOL-Library.AList" "HOL-Library.Multiset"
begin

section \<open>Data model of \<open>lib/worker.py\<close>\<close>

text \<open>
  The module defines two thread classes: \<open>WorkerThread\<close> (an execution unit) and
  \<open>Worker\<close> (the supervisor). Both are modelled as records; the body of each
  \<open>run\<close> method becomes a small-step function driven by a program counter, so that
  the threads can be interleaved at the points where the source reads or writes
  shared objects (the two queues, the retirement flags, the registry).
\<close>

subsection \<open>Tasks and the conversion engine (collaborators outside the module)\<close>

text \<open>
  Modelled from the spec: the attributes of \<open>current_task.ffmpeg\<close> that
  \<open>getJobProgress\<close> reads. The class lives in \<open>lib/ffmpeg.py\<close>, which is not part of
  the module; each field holds the text that \<open>str()\<close> gives for the attribute.
\<close>

record ffmpeg =
  duration :: string
  src_fps :: string
  elapsed :: string
  time :: string
  percent :: string
  frame :: string
  fps :: string
  speed :: string
  bitrate :: string
  file_size :: string

text \<open>
  Modelled from the spec: the Task object handed out by the job queue. \<open>tid\<close> is the
  identity of the Python object (two tasks with equal attributes are still two
  objects); \<open>success\<close> is unset (\<open>None\<close>) until a unit assigns it;
  \<open>source_abspath\<close> and \<open>source_basename\<close> are what the getters
  \<open>get_source_abspath()\<close> and \<open>get_source_basename()\<close> return.
\<close>

record task =
  tid :: nat
  source_abspath :: string
  source_basename :: string
  cache_path :: string
  success :: "bool option"
  ffmpeg :: ffmpeg

text \<open>
  The calls into \<open>lib/common.py\<close> and \<open>lib/ffmpeg.py\<close> made by \<open>process_item\<close> are
  parameters of the model. Each may raise (\<open>Inl\<close> carries \<open>str(e)\<close>); the conversion
  also leaves an updated progress snapshot on the task's \<open>ffmpeg\<close> object.
\<close>

type_synonym exn = string

record engine =
  ensureDir :: "string \<Rightarrow> exn option"
  generate_ffmpeg_args :: "ffmpeg \<Rightarrow> exn + string list"
  convert_file_and_fetch_progress ::
    "ffmpeg \<Rightarrow> string \<Rightarrow> string \<Rightarrow> string list \<Rightarrow> ffmpeg \<times> (exn + bool)"

subsection \<open>Logging\<close>

text \<open>
  \<open>_log(message, message2, level)\<close> formats with \<open>common.format_message\<close> and calls
  the logger method named by \<open>level\<close>. An entry keeps the three arguments.
\<close>

record log_entry =
  level :: string
  message :: string
  message2 :: string

definition log_line :: "string \<Rightarrow> string \<Rightarrow> string \<Rightarrow> log_entry" where
  "log_line lv m m2 = \<lparr>level = lv, message = m, message2 = m2\<rparr>"

subsection \<open>\<open>WorkerThread\<close>\<close>

text \<open>
  \<open>current_task\<close> is \<open>None\<close> after \<open>__init__\<close>, a Task while one is held, and the empty
  dict \<open>{}\<close> after a task has been pushed. \<open>None\<close> and \<open>{}\<close> are both false in a
  condition.
\<close>

datatype current = PyNone | EmptyDict | Task task

text \<open>
  The control points of \<open>WorkerThread.run\<close>:
  \<^item> \<open>Starting\<close>: before the first log line (line 106);
  \<^item> \<open>OuterCheck\<close>: the condition of the outer \<open>while\<close> (line 107);
  \<^item> \<open>InnerCheck\<close>: the condition of the inner \<open>while\<close> (line 109);
  \<^item> \<open>TryBody\<close>: lines 111-114, up to and including \<open>get_nowait()\<close>;
  \<^item> \<open>Processing\<close>: lines 117-124, the conversion and the push;
  \<^item> \<open>Sleeping\<close>: \<open>time.sleep(5)\<close> (line 129);
  \<^item> \<open>Stopped\<close>: \<open>run\<close> has returned; \<open>isAlive()\<close> is false.
\<close>

datatype pc = Starting | OuterCheck | InnerCheck | TryBody | Processing | Sleeping | Stopped

record worker_thread =
  threadID :: nat
  name :: string
  ident :: "nat option"
  idle :: bool
  current_task :: current
  redundant_flag :: bool
  logger :: "log_entry list"
  pc :: pc

definition isAlive :: "worker_thread \<Rightarrow> bool" where
  "isAlive u = (pc u \<noteq> Stopped)"

definition log_unit :: "string \<Rightarrow> string \<Rightarrow> string \<Rightarrow> worker_thread \<Rightarrow> worker_thread" where
  "log_unit lv m m2 u = u\<lparr>logger := logger u @ [log_line lv m m2]\<rparr>"

text \<open>\<open>str(n)\<close> for a non-negative integer.\<close>

fun str_nat :: "nat \<Rightarrow> string" where
  "str_nat n = (if n < 10 then [''0123456789'' ! n]
                else str_nat (n div 10) @ [''0123456789'' ! (n mod 10)])"

declare str_nat.simps [simp del]

definition getJobProgress :: "worker_thread \<Rightarrow> (string \<times> string) list" where
  "getJobProgress u =
     (case current_task u of
        Task t \<Rightarrow>
          [(''duration'', duration (ffmpeg t)),
           (''src_fps'', src_fps (ffmpeg t)),
           (''elapsed'', elapsed (ffmpeg t)),
           (''time'', time (ffmpeg t)),
           (''percent'', percent (ffmpeg t)),
           (''frame'', frame (ffmpeg t)),
           (''fps'', fps (ffmpeg t)),
           (''speed'', speed (ffmpeg t)),
           (''bitrate'', bitrate (ffmpeg t)),
           (''file_size'', file_size (ffmpeg t))]
      | _ \<Rightarrow> [])"

record status =
  st_id :: string
  st_name :: string
  st_idle :: bool
  st_pid :: "nat option"
  st_progress :: "(string \<times> string) list"
  st_current_file :: string

definition get_status :: "worker_thread \<Rightarrow> status" where
  "get_status u =
     \<lparr>st_id = str_nat (threadID u),
      st_name = name u,
      st_idle = idle u,
      st_pid = ident u,
      st_progress = getJobProgress u,
      st_current_file =
        (case current_task u of Task t \<Rightarrow> source_basename t | _ \<Rightarrow> [])\<rparr>"

text \<open>
  \<open>process_item\<close> on the task \<open>t\<close> held in \<open>current_task\<close>. The result is the unit
  with its log extended, the task with the progress snapshot as the engine left it
  (the Task object is mutated in place, so \<open>current_task\<close> sees it too), and either
  the exception that escaped or the boolean returned.
\<close>

definition process_item ::
  "engine \<Rightarrow> worker_thread \<Rightarrow> task \<Rightarrow> worker_thread \<times> task \<times> (exn + bool)" where
  "process_item eng u t =
     (let abspath = source_abspath t;
          u1 = log_unit ''info'' (name u @ '' running job - '' @ abspath) [] u
      in case ensureDir eng (cache_path t) of
           Some e \<Rightarrow> (u1, t, Inl e)
         | None \<Rightarrow>
            (case generate_ffmpeg_args eng (ffmpeg t) of
               Inl e \<Rightarrow> (u1, t, Inl e)
             | Inr ffmpeg_args \<Rightarrow>
                 (let (f, r) =
                        (if ffmpeg_args \<noteq> []
                         then convert_file_and_fetch_progress eng (ffmpeg t) abspath
                                (cache_path t) ffmpeg_args
                         else (ffmpeg t, Inr False));
                      t2 = t\<lparr>ffmpeg := f\<rparr>;
                      u2 = u1\<lparr>current_task := Task t2\<rparr>
                  in case r of
                       Inl e \<Rightarrow> (u2, t2, Inl e)
                     | Inr True \<Rightarrow>
                         (log_unit ''info''
                            (''Successfully converted file '' @ [CHR 0x27] @ abspath @ [CHR 0x27])
                            [] u2, t2, Inr True)
                     | Inr False \<Rightarrow>
                         (log_unit ''warning''
                            (''Failed to convert file '' @ [CHR 0x27] @ abspath @ [CHR 0x27])
                            [] u2, t2, Inr False))))"

text \<open>
  One step of \<open>WorkerThread.run\<close> from the control point \<open>pc u\<close>. The unit shares
  \<open>task_queue\<close> and \<open>complete_queue\<close> with the supervisor and the other units; the
  step returns them updated. \<open>None\<close>: the thread has finished and takes no step.

  At \<open>TryBody\<close>, \<open>get_nowait()\<close> on an empty queue raises \<open>queue.Empty\<close>, and the
  handler's \<open>continue\<close> goes back to the inner condition. At \<open>Processing\<close>, any
  exception of \<open>process_item\<close> is caught by \<open>except Exception\<close> (line 127): it is
  logged and control falls to the inner condition; the assignment to \<open>success\<close>,
  the push and the reset of \<open>current_task\<close> (lines 117-124) are skipped. If
  \<open>current_task\<close> is not a Task at \<open>Processing\<close>, the attribute access of line 86
  raises, with the same handling.
\<close>

definition run_step ::
  "engine \<Rightarrow> worker_thread \<Rightarrow> task list \<Rightarrow> task list \<Rightarrow>
     (worker_thread \<times> task list \<times> task list) option" where
  "run_step eng u tq cq =
     (case pc u of
        Starting \<Rightarrow>
          Some ((log_unit ''info'' (''Starting '' @ name u) [] u)\<lparr>pc := OuterCheck\<rparr>, tq, cq)
      | OuterCheck \<Rightarrow>
          (if redundant_flag u
           then Some ((log_unit ''info'' (''Stopping '' @ name u) [] u)\<lparr>pc := Stopped\<rparr>, tq, cq)
           else Some (u\<lparr>idle := True, pc := InnerCheck\<rparr>, tq, cq))
      | InnerCheck \<Rightarrow>
          (if \<not> redundant_flag u \<and> tq \<noteq> []
           then Some (u\<lparr>pc := TryBody\<rparr>, tq, cq)
           else Some (u\<lparr>pc := Sleeping\<rparr>, tq, cq))
      | TryBody \<Rightarrow>
          (case tq of
             [] \<Rightarrow> Some (u\<lparr>idle := False, pc := InnerCheck\<rparr>, tq, cq)
           | t # rest \<Rightarrow>
               Some ((log_unit ''info'' (name u @ '' picked up job - '' @ source_abspath t) []
                        (u\<lparr>idle := False, current_task := Task t\<rparr>))\<lparr>pc := Processing\<rparr>,
                     rest, cq))
      | Processing \<Rightarrow>
          (case current_task u of
             Task t \<Rightarrow>
               (case process_item eng u t of
                  (u', t', Inl e) \<Rightarrow>
                    Some ((log_unit ''exception''
                             (''Exception in processing job with '' @ name u @ '':'') e u')
                            \<lparr>pc := InnerCheck\<rparr>, tq, cq)
                | (u', t', Inr b) \<Rightarrow>
                    Some ((log_unit ''info''
                             (name u @ '' finished job - '' @ source_abspath t) [] u')
                            \<lparr>current_task := EmptyDict, pc := InnerCheck\<rparr>,
                          tq, cq @ [t'\<lparr>success := Some b\<rparr>]))
           | _ \<Rightarrow>
               Some ((log_unit ''exception''
                        (''Exception in processing job with '' @ name u @ '':'')
                        ''object has no attribute get_source_abspath'' u)
                       \<lparr>pc := InnerCheck\<rparr>, tq, cq))
      | Sleeping \<Rightarrow> Some (u\<lparr>pc := OuterCheck\<rparr>, tq, cq)
      | Stopped \<Rightarrow> None)"

subsection \<open>\<open>Worker\<close>, the supervisor\<close>

text \<open>
  \<open>settings\<close>: the two members the module reads, \<open>NUMBER_OF_WORKERS\<close> (passed through
  \<open>int()\<close>) and \<open>read_history_log()\<close>, whose return value is the field \<open>history_log\<close>.
\<close>

record settings =
  NUMBER_OF_WORKERS :: int
  history_log :: "task list"

definition read_history_log :: "settings \<Rightarrow> task list" where
  "read_history_log st = history_log st"

text \<open>
  Modelled from the spec: the external job queue (its class is not part of the
  module). \<open>incoming\<close> holds the pending items, handed out first in first out;
  \<open>processed\<close> holds the arguments of the calls of \<open>mark_item_as_processed\<close> in
  order (the call records its argument and does not raise); \<open>next_tid\<close> is the
  identity the next Task object created will get. The spec lists \<open>read_history_log\<close>
  among the operations consumed from the job queue; \<open>jq_history\<close> is what that
  operation would return.
\<close>

record job_queue =
  incoming :: "task list"
  processed :: "task list"
  jq_history :: "task list"
  next_tid :: nat

definition incoming_is_empty :: "job_queue \<Rightarrow> bool" where
  "incoming_is_empty jq = (incoming jq = [])"

definition get_next_incoming_item :: "job_queue \<Rightarrow> task option \<times> job_queue" where
  "get_next_incoming_item jq =
     (case incoming jq of
        [] \<Rightarrow> (None, jq)
      | t # rest \<Rightarrow> (Some t, jq\<lparr>incoming := rest\<rparr>))"

definition mark_item_as_processed :: "task \<Rightarrow> job_queue \<Rightarrow> job_queue" where
  "mark_item_as_processed t jq = jq\<lparr>processed := processed jq @ [t]\<rparr>"

definition jq_read_history_log :: "job_queue \<Rightarrow> task list" where
  "jq_read_history_log jq = jq_history jq"

text \<open>
  The control points of \<open>Worker.run\<close>:
  \<^item> \<open>SupStarting\<close>: line 189;
  \<^item> \<open>LoopHead\<close>: the condition of the outer \<open>while\<close> (line 190);
  \<^item> \<open>Reconcile\<close>: \<open>initWorkerThreads()\<close> of line 194;
  \<^item> \<open>IdleCheck\<close>: line 197;
  \<^item> \<open>DrainCheck\<close>: the condition of line 202; \<open>DrainPop\<close>: lines 205-206;
  \<^item> \<open>DispatchCheck\<close>: the condition of line 213; \<open>DispatchReconcile\<close>: line 216;
    \<open>DispatchFull\<close>: line 218; \<open>DispatchGet\<close>: line 220; \<open>DispatchPut t\<close>: line 223
    with the item \<open>t\<close> in \<open>next_item_to_process\<close>;
  \<^item> \<open>Exited\<close>: \<open>run\<close> has returned; \<open>Crashed e\<close>: \<open>run\<close> was left by the uncaught
    exception \<open>e\<close>.
\<close>

datatype error = KeyError nat

datatype worker_pc =
    SupStarting | LoopHead | Reconcile | IdleCheck | DrainCheck | DrainPop
  | DispatchCheck | DispatchReconcile | DispatchFull | DispatchGet | DispatchPut task
  | Exited | Crashed error

text \<open>
  The two queues are the members \<open>task_queue = queue.Queue(maxsize=1)\<close> and
  \<open>complete_queue = queue.Queue()\<close>; the registry \<open>worker_threads\<close> is a dict, kept as
  an association list in insertion order. A registry entry holds the state of the
  thread object it refers to: the registry is the only place that refers to it.
  \<open>next_ident\<close> stands for the runtime's supply of thread identifiers
  (\<open>Thread.ident\<close>): the n-th thread started gets the identifier n, so that a unit
  can be told from a later unit registered under the same key.
\<close>

record worker =
  settings :: settings
  job_queue :: job_queue
  task_queue :: "task list"
  complete_queue :: "task list"
  worker_threads :: "(nat \<times> worker_thread) list"
  remove_list :: "nat list"
  abort_flag :: bool
  worker_logger :: "log_entry list"
  worker_pc :: worker_pc
  next_ident :: nat

definition maxsize :: nat where
  "maxsize = 1"

text \<open>\<open>Queue.full()\<close>: \<open>0 < maxsize <= qsize\<close>.\<close>

definition full :: "task list \<Rightarrow> bool" where
  "full q = (0 < maxsize \<and> maxsize \<le> length q)"

definition log_worker :: "string \<Rightarrow> string \<Rightarrow> string \<Rightarrow> worker \<Rightarrow> worker" where
  "log_worker lv m m2 s = s\<lparr>worker_logger := worker_logger s @ [log_line lv m m2]\<rparr>"

text \<open>\<open>WorkerThread.__init__\<close> followed by \<open>start()\<close>.\<close>

definition new_thread :: "nat \<Rightarrow> string \<Rightarrow> nat \<Rightarrow> worker_thread" where
  "new_thread worker_id nm i =
     \<lparr>threadID = worker_id, name = nm, ident = Some i, idle = True,
      current_task = PyNone, redundant_flag = False, logger = [], pc = Starting\<rparr>"

definition startWorkerThread :: "nat \<Rightarrow> worker \<Rightarrow> worker" where
  "startWorkerThread worker_id s =
     s\<lparr>worker_threads :=
         AList.update worker_id
           (new_thread worker_id (''Worker-'' @ str_nat worker_id) (next_ident s))
           (worker_threads s),
       next_ident := Suc (next_ident s)\<rparr>"

text \<open>
  The first loop of \<open>initWorkerThreads\<close> (lines 153-155), over the indices
  \<open>range(len(self.worker_threads))\<close> computed once at entry. A subscript with a key
  the dict does not hold raises \<open>KeyError\<close>; the registry keeps the deletions done
  before.
\<close>

fun remove_dead :: "nat list \<Rightarrow> worker \<Rightarrow> (error \<times> worker) + worker" where
  "remove_dead [] s = Inr s"
| "remove_dead (thread # rest) s =
     (case map_of (worker_threads s) thread of
        None \<Rightarrow> Inl (KeyError thread, s)
      | Some u \<Rightarrow>
          remove_dead rest
            (if \<not> isAlive u
             then s\<lparr>worker_threads := AList.delete thread (worker_threads s)\<rparr>
             else s))"

text \<open>The spawning loop (lines 159-162).\<close>

fun spawn_missing :: "nat list \<Rightarrow> worker \<Rightarrow> worker" where
  "spawn_missing [] s = s"
| "spawn_missing (i # rest) s =
     spawn_missing rest
       (if i \<notin> fst ` set (worker_threads s) then startWorkerThread i s else s)"

text \<open>
  The retirement loop (lines 167-171). \<open>flag_redundant\<close> is its body once the
  subscript of line 168 has found the unit \<open>u\<close>.
\<close>

definition flag_redundant :: "nat \<Rightarrow> worker_thread \<Rightarrow> worker \<Rightarrow> worker" where
  "flag_redundant thread u s =
     (if NUMBER_OF_WORKERS (settings s) \<le> int (threadID u)
      then s\<lparr>worker_threads :=
               AList.update thread (u\<lparr>redundant_flag := True\<rparr>) (worker_threads s),
             remove_list := remove_list s @ [thread]\<rparr>
      else s)"

fun mark_redundant :: "nat list \<Rightarrow> worker \<Rightarrow> (error \<times> worker) + worker" where
  "mark_redundant [] s = Inr s"
| "mark_redundant (thread # rest) s =
     (case map_of (worker_threads s) thread of
        None \<Rightarrow> Inl (KeyError thread, s)
      | Some u \<Rightarrow> mark_redundant rest (flag_redundant thread u s))"

definition spawn_phase :: "worker \<Rightarrow> worker" where
  "spawn_phase s =
     (if int (length (worker_threads s)) < NUMBER_OF_WORKERS (settings s)
      then spawn_missing [0..<nat (NUMBER_OF_WORKERS (settings s))]
             (log_worker ''info''
                ''Worker Threads under the configured limit. Spawning more...'' [] s)
      else s)"

definition retire_phase :: "worker \<Rightarrow> (error \<times> worker) + worker" where
  "retire_phase s =
     (if NUMBER_OF_WORKERS (settings s) < int (length (worker_threads s))
      then mark_redundant [0..<length (worker_threads s)]
             (log_worker ''info''
                ''Worker Threads exceed the configured limit. Marking some for removal...'' [] s)
      else Inr s)"

definition initWorkerThreads :: "worker \<Rightarrow> (error \<times> worker) + worker" where
  "initWorkerThreads s =
     (case remove_dead [0..<length (worker_threads s)] s of
        Inl e \<Rightarrow> Inl e
      | Inr s1 \<Rightarrow> retire_phase (spawn_phase s1))"

definition checkForIdleWorkers :: "worker \<Rightarrow> bool" where
  "checkForIdleWorkers s = list_ex (\<lambda>(thread, u). idle u) (worker_threads s)"

text \<open>
  \<open>add_to_task_queue\<close> is \<open>task_queue.put(item)\<close>, which blocks while the queue is
  full: \<open>None\<close> means the caller cannot proceed yet.
\<close>

definition add_to_task_queue :: "task \<Rightarrow> worker \<Rightarrow> worker option" where
  "add_to_task_queue item s =
     (if full (task_queue s) then None
      else Some (s\<lparr>task_queue := task_queue s @ [item]\<rparr>))"

definition getAllWorkerStatus :: "worker \<Rightarrow> status list" where
  "getAllWorkerStatus s = map (\<lambda>(thread, u). get_status u) (worker_threads s)"

definition getAllHistoricalTasks :: "worker \<Rightarrow> task list" where
  "getAllHistoricalTasks s = read_history_log (settings s)"

text \<open>
  One step of \<open>Worker.run\<close>. An exception of \<open>initWorkerThreads\<close> is not caught
  anywhere in \<open>run\<close> (lines 194 and 216 are outside every \<open>try\<close>), so it ends the
  supervisor thread. \<open>None\<close>: the thread has ended, or is blocked in \<open>put\<close>.
\<close>

definition Worker_run_step :: "worker \<Rightarrow> worker option" where
  "Worker_run_step s =
     (case worker_pc s of
        SupStarting \<Rightarrow>
          Some ((log_worker ''info'' ''Starting Worker Monitor loop...'' [] s)
                  \<lparr>worker_pc := LoopHead\<rparr>)
      | LoopHead \<Rightarrow>
          (if abort_flag s
           then Some ((log_worker ''info'' ''Leaving Worker Monitor loop...'' [] s)
                        \<lparr>worker_pc := Exited\<rparr>)
           else Some (s\<lparr>worker_pc := Reconcile\<rparr>))
      | Reconcile \<Rightarrow>
          (case initWorkerThreads s of
             Inl (e, s') \<Rightarrow> Some (s'\<lparr>worker_pc := Crashed e\<rparr>)
           | Inr s' \<Rightarrow> Some (s'\<lparr>worker_pc := IdleCheck\<rparr>))
      | IdleCheck \<Rightarrow>
          (if \<not> checkForIdleWorkers s
           then Some (s\<lparr>worker_pc := LoopHead\<rparr>)
           else Some (s\<lparr>worker_pc := DrainCheck\<rparr>))
      | DrainCheck \<Rightarrow>
          (if \<not> abort_flag s \<and> complete_queue s \<noteq> []
           then Some (s\<lparr>worker_pc := DrainPop\<rparr>)
           else Some (s\<lparr>worker_pc := DispatchCheck\<rparr>))
      | DrainPop \<Rightarrow>
          (case complete_queue s of
             [] \<Rightarrow> Some (s\<lparr>worker_pc := DrainCheck\<rparr>)
           | task_item # rest \<Rightarrow>
               Some (s\<lparr>complete_queue := rest,
                       job_queue := mark_item_as_processed task_item (job_queue s),
                       worker_pc := DrainCheck\<rparr>))
      | DispatchCheck \<Rightarrow>
          (if \<not> abort_flag s \<and> \<not> incoming_is_empty (job_queue s)
           then Some (s\<lparr>worker_pc := DispatchReconcile\<rparr>)
           else Some (s\<lparr>worker_pc := LoopHead\<rparr>))
      | DispatchReconcile \<Rightarrow>
          (case initWorkerThreads s of
             Inl (e, s') \<Rightarrow> Some (s'\<lparr>worker_pc := Crashed e\<rparr>)
           | Inr s' \<Rightarrow> Some (s'\<lparr>worker_pc := DispatchFull\<rparr>))
      | DispatchFull \<Rightarrow>
          (if full (task_queue s)
           then Some (s\<lparr>worker_pc := LoopHead\<rparr>)
           else Some (s\<lparr>worker_pc := DispatchGet\<rparr>))
      | DispatchGet \<Rightarrow>
          (case get_next_incoming_item (job_queue s) of
             (None, jq) \<Rightarrow> Some (s\<lparr>job_queue := jq, worker_pc := DispatchCheck\<rparr>)
           | (Some next_item_to_process, jq) \<Rightarrow>
               Some ((log_worker ''info''
                        (''Processing item - '' @ source_abspath next_item_to_process) [] s)
                       \<lparr>job_queue := jq, worker_pc := DispatchPut next_item_to_process\<rparr>))
      | DispatchPut item \<Rightarrow>
          (case add_to_task_queue item s of
             None \<Rightarrow> None
           | Some s' \<Rightarrow> Some (s'\<lparr>worker_pc := DispatchCheck\<rparr>))
      | Exited \<Rightarrow> None
      | Crashed e \<Rightarrow> None)"

section \<open>The threads together\<close>

text \<open>
  The supervisor and the units run concurrently. An execution is a sequence of
  events: a step of the unit registered under a key, a step of the supervisor, or a
  change made from outside the module (the configured number of workers is changed,
  the abort flag is set, the job queue receives a new item, a new Task object).
  Each step is atomic and runs from one control point to the next; the control
  points are placed where the source reads or writes what another thread writes or
  reads. Two things are coarser than the source: a call of \<open>initWorkerThreads\<close> is one
  step, reading \<open>isAlive()\<close> of every unit from the state at the call, and the
  conversion of a task is one step, so the progress it reports becomes visible when
  it ends. The sleeps change no state and are left out.
\<close>

datatype event =
    UnitStep nat
  | SupStep
  | SetWorkers int
  | SetAbort
  | NewItem task

definition unit_step :: "engine \<Rightarrow> nat \<Rightarrow> worker \<Rightarrow> worker option" where
  "unit_step eng k s =
     (case map_of (worker_threads s) k of
        None \<Rightarrow> None
      | Some u \<Rightarrow>
          (case run_step eng u (task_queue s) (complete_queue s) of
             None \<Rightarrow> None
           | Some (u', tq, cq) \<Rightarrow>
               Some (s\<lparr>worker_threads := AList.update k u' (worker_threads s),
                       task_queue := tq, complete_queue := cq\<rparr>)))"

definition new_item :: "task \<Rightarrow> job_queue \<Rightarrow> job_queue" where
  "new_item t jq =
     jq\<lparr>incoming := incoming jq @ [t\<lparr>tid := next_tid jq\<rparr>], next_tid := Suc (next_tid jq)\<rparr>"

fun exec :: "engine \<Rightarrow> event \<Rightarrow> worker \<Rightarrow> worker option" where
  "exec eng (UnitStep k) s = unit_step eng k s"
| "exec eng SupStep s = Worker_run_step s"
| "exec eng (SetWorkers n) s =
     Some (s\<lparr>settings := (settings s)\<lparr>NUMBER_OF_WORKERS := n\<rparr>\<rparr>)"
| "exec eng SetAbort s = Some (s\<lparr>abort_flag := True\<rparr>)"
| "exec eng (NewItem t) s = Some (s\<lparr>job_queue := new_item t (job_queue s)\<rparr>)"

fun run_events :: "engine \<Rightarrow> event list \<Rightarrow> worker \<Rightarrow> worker option" where
  "run_events eng [] s = Some s"
| "run_events eng (ev # evs) s =
     (case exec eng ev s of None \<Rightarrow> None | Some s' \<Rightarrow> run_events eng evs s')"

text \<open>\<open>Worker.__init__\<close>, with the settings and the job queue it is given.\<close>

definition init_worker :: "settings \<Rightarrow> job_queue \<Rightarrow> worker" where
  "init_worker st jq =
     \<lparr>settings = st, job_queue = jq, task_queue = [], complete_queue = [],
      worker_threads = [], remove_list = [], abort_flag = False,
      worker_logger = [], worker_pc = SupStarting, next_ident = 1\<rparr>"

section \<open>Notions used in the statements\<close>

text \<open>The key set of the registry is exactly \<open>{0, ..., len - 1}\<close>.\<close>

definition keys_dense :: "(nat \<times> worker_thread) list \<Rightarrow> bool" where
  "keys_dense reg = (set (map fst reg) = {0..<length reg})"

text \<open>
  Where a task can be while it is in the pipeline: among the job queue's incoming
  items, in the supervisor's local \<open>next_item_to_process\<close> between lines 220 and 223,
  on \<open>task_queue\<close>, owned by a unit between its claim and its push, on
  \<open>complete_queue\<close>, or among the items reported to the job queue. \<open>pipeline\<close> is the
  multiset of the identities of these tasks. A \<open>current_task\<close> left behind by an
  exception is a stale reference, not ownership: the unit is no longer at
  \<open>Processing\<close>.
\<close>

definition owned_of :: "worker_thread \<Rightarrow> nat multiset" where
  "owned_of u =
     (if pc u = Processing
      then (case current_task u of Task t \<Rightarrow> {#tid t#} | _ \<Rightarrow> {#})
      else {#})"

definition owned :: "(nat \<times> worker_thread) list \<Rightarrow> nat multiset" where
  "owned reg = sum_list (map (\<lambda>(thread, u). owned_of u) reg)"

definition held :: "worker_pc \<Rightarrow> nat multiset" where
  "held p = (case p of DispatchPut t \<Rightarrow> {#tid t#} | _ \<Rightarrow> {#})"

definition pipeline :: "worker \<Rightarrow> nat multiset" where
  "pipeline s =
     mset (map tid (incoming (job_queue s))) + held (worker_pc s) +
     mset (map tid (task_queue s)) + owned (worker_threads s) +
     mset (map tid (complete_queue s)) + mset (map tid (processed (job_queue s)))"

text \<open>
  \<open>raises eng u\<close>: the unit is at \<open>Processing\<close> with a task on which \<open>process_item\<close>
  raises. \<open>lost eng ev s\<close> is the identity of the task a unit step drops that way,
  \<open>arrived ev s\<close> the identity a new item gets.
\<close>

definition raises :: "engine \<Rightarrow> worker_thread \<Rightarrow> bool" where
  "raises eng u =
     (pc u = Processing \<and>
      (case current_task u of
         Task t \<Rightarrow> isl (snd (snd (process_item eng u t)))
       | _ \<Rightarrow> False))"

definition lost :: "engine \<Rightarrow> event \<Rightarrow> worker \<Rightarrow> nat multiset" where
  "lost eng ev s =
     (case ev of
        UnitStep k \<Rightarrow>
          (case map_of (worker_threads s) k of
             Some u \<Rightarrow> (if raises eng u then owned_of u else {#})
           | None \<Rightarrow> {#})
      | _ \<Rightarrow> {#})"

definition arrived :: "event \<Rightarrow> worker \<Rightarrow> nat multiset" where
  "arrived ev s = (case ev of NewItem t \<Rightarrow> {#next_tid (job_queue s)#} | _ \<Rightarrow> {#})"



fun failures :: "engine \<Rightarrow> event list \<Rightarrow> worker \<Rightarrow> nat multiset" where
  "failures eng [] s = {#}"
| "failures eng (ev # evs) s =
     (case exec eng ev s of
        None \<Rightarrow> {#}
      | Some s' \<Rightarrow> lost eng ev s + failures eng evs s')"

text \<open>
  The supervisor is at most one task ahead of the units: the task it holds between
  lines 220 and 223 and the tasks on \<open>task_queue\<close> number at most one, and it only
  asks the job queue for the next item while \<open>task_queue\<close> is empty.
\<close>

definition handoff_ok :: "worker \<Rightarrow> bool" where
  "handoff_ok s =
     (length (task_queue s) + size (held (worker_pc s)) \<le> 1 \<and>
      (if worker_pc s = DispatchGet then task_queue s = [] else True))"


text \<open>
  Parameter generation or the conversion raises on the task (the two engine calls of
  lines 94 and 96).
\<close>

definition engine_raises :: "engine \<Rightarrow> task \<Rightarrow> bool" where
  "engine_raises eng t =
     (case generate_ffmpeg_args eng (ffmpeg t) of
        Inl e \<Rightarrow> True
      | Inr ffmpeg_args \<Rightarrow>
          ffmpeg_args \<noteq> [] \<and>
          isl (snd (convert_file_and_fetch_progress eng (ffmpeg t) (source_abspath t)
                      (cache_path t) ffmpeg_args)))"

text \<open>
  Every reference to a task: the places of the pipeline other than ownership, and the
  \<open>current_task\<close> of every unit, whatever its control point.
\<close>

definition refs_of :: "worker_thread \<Rightarrow> nat multiset" where
  "refs_of u = (case current_task u of Task t \<Rightarrow> {#tid t#} | _ \<Rightarrow> {#})"

definition refs :: "(nat \<times> worker_thread) list \<Rightarrow> nat multiset" where
  "refs reg = sum_list (map (\<lambda>(thread, u). refs_of u) reg)"



text \<open>
  \<open>untouched t w\<close>: if the unit \<open>w\<close> still refers to the task object \<open>t\<close>, that
  object carries the success flag \<open>t\<close> had, and \<open>w\<close> is not processing it.
  \<open>abandoned t s\<close>: the object is in no queue and in no list of the job queue, and
  every unit is \<open>untouched\<close> by it.
\<close>

definition untouched :: "task \<Rightarrow> worker_thread \<Rightarrow> bool" where
  "untouched t w =
     (case current_task w of
        Task y \<Rightarrow> (if tid y = tid t then success y = success t \<and> pc w \<noteq> Processing else True)
      | _ \<Rightarrow> True)"


text \<open>The state a call leaves behind, whether it returned or raised.\<close>

definition result_state :: "(error \<times> worker) + worker \<Rightarrow> worker" where
  "result_state r = (case r of Inl (e, s) \<Rightarrow> s | Inr s \<Rightarrow> s)"

text \<open>
  A job queue as its owner keeps it: the Task objects it holds are pairwise distinct
  objects, created before the next identity to be given out.
\<close>

definition wf_job_queue :: "job_queue \<Rightarrow> bool" where
  "wf_job_queue jq =
     (mset (map tid (incoming jq)) + mset (map tid (processed jq))
        \<subseteq># mset [0..<next_tid jq])"

section \<open>Concrete inputs\<close>

definition demo_ffmpeg :: ffmpeg where
  "demo_ffmpeg =
     \<lparr>duration = ''60'', src_fps = ''25'', elapsed = ''0'', time = ''0'', percent = ''0'',
      frame = ''0'', fps = ''0'', speed = ''0'', bitrate = ''0'', file_size = ''0''\<rparr>"

definition demo_task :: "string \<Rightarrow> task" where
  "demo_task nm =
     \<lparr>tid = 0, source_abspath = ''/media/'' @ nm, source_basename = nm,
      cache_path = ''/cache'', success = None, ffmpeg = demo_ffmpeg\<rparr>"

text \<open>An engine whose conversion succeeds, and one whose conversion raises half-way.\<close>

definition ok_engine :: engine where
  "ok_engine =
     \<lparr>ensureDir = (\<lambda>p. None),
      generate_ffmpeg_args = (\<lambda>f. Inr [''-i'']),
      convert_file_and_fetch_progress = (\<lambda>f a c args. (f\<lparr>percent := ''100''\<rparr>, Inr True))\<rparr>"

definition raising_engine :: engine where
  "raising_engine =
     \<lparr>ensureDir = (\<lambda>p. None),
      generate_ffmpeg_args = (\<lambda>f. Inr [''-i'']),
      convert_file_and_fetch_progress = (\<lambda>f a c args. (f\<lparr>percent := ''50''\<rparr>, Inl ''boom''))\<rparr>"

definition empty_job_queue :: job_queue where
  "empty_job_queue = \<lparr>incoming = [], processed = [], jq_history = [], next_tid = 0\<rparr>"

text \<open>A freshly constructed supervisor configured for \<open>n\<close> workers.\<close>

definition demo_worker :: "int \<Rightarrow> worker" where
  "demo_worker n = init_worker \<lparr>NUMBER_OF_WORKERS = n, history_log = []\<rparr> empty_job_queue"

text \<open>A supervisor with \<open>n\<close> freshly started units \<open>0, ..., n - 1\<close> and target \<open>target\<close>.\<close>

definition pool :: "nat \<Rightarrow> int \<Rightarrow> worker" where
  "pool n target = spawn_missing [0..<n] (demo_worker target)"

text \<open>
  The pool of two units with target 1 after one call of \<open>initWorkerThreads\<close>: unit 1
  carries the retirement flag and is recorded in \<open>remove_list\<close>.
\<close>

definition flagged_pool :: worker where
  "flagged_pool =
     (pool 2 1)\<lparr>worker_threads :=
                  [(0, new_thread 0 ''Worker-0'' 1),
                   (1, (new_thread 1 ''Worker-1'' 2)\<lparr>redundant_flag := True\<rparr>)],
                remove_list := [1]\<rparr>"

text \<open>
  Three units, one task. Unit 2 claims the task; the target drops to 1; the
  supervisor flags units 1 and 2 (\<open>flagging_schedule\<close>). Then unit 1, idle, stops, and
  the supervisor reconciles again while unit 2 is still converting
  (\<open>shrink_schedule\<close>).
\<close>

definition flagging_schedule :: "event list" where
  "flagging_schedule =
     [SupStep, SupStep, SupStep, NewItem (demo_task ''a.mkv''),
      SupStep, SupStep, SupStep, SupStep, SupStep, SupStep, SupStep,
      UnitStep 2, UnitStep 2, UnitStep 2, UnitStep 2,
      UnitStep 1, UnitStep 1, UnitStep 1,
      SetWorkers 1, SupStep, SupStep, SupStep]"

definition shrink_schedule :: "event list" where
  "shrink_schedule =
     flagging_schedule @
     [UnitStep 1, UnitStep 1,
      SupStep, SupStep, SupStep, SupStep, SupStep]"

text \<open>
  One unit, one task; the unit has claimed the task (\<open>claimed_schedule\<close>). With an
  engine whose conversion raises, the unit then catches the exception, finds the
  queue empty, sleeps, and marks itself idle (\<open>stale_schedule\<close>).
\<close>

definition claimed_schedule :: "event list" where
  "claimed_schedule =
     [SupStep, SupStep, SupStep, NewItem (demo_task ''a.mkv''),
      SupStep, SupStep, SupStep, SupStep, SupStep, SupStep, SupStep,
      UnitStep 0, UnitStep 0, UnitStep 0, UnitStep 0]"

definition stale_schedule :: "event list" where
  "stale_schedule =
     claimed_schedule @
     [UnitStep 0,
      UnitStep 0, UnitStep 0, UnitStep 0]"


text \<open>The first events of \<open>happy_schedule\<close>, up to the supervisor's \<open>put\<close>.\<close>

definition handoff_schedule :: "event list" where
  "handoff_schedule =
     [SupStep, SupStep, SupStep, NewItem (demo_task ''a.mkv''),
      SupStep, SupStep, SupStep, SupStep, SupStep, SupStep, SupStep]"

text \<open>The state an execution ends in, for an execution that can be run to its end.\<close>

definition final_state :: "engine \<Rightarrow> event list \<Rightarrow> worker \<Rightarrow> worker" where
  "final_state eng evs s = the (run_events eng evs s)"





text \<open>A supervisor whose settings hold one history record while the job queue holds none.\<close>

definition history_worker :: worker where
  "history_worker =
     init_worker \<lparr>NUMBER_OF_WORKERS = 1, history_log = [demo_task ''old.mkv'']\<rparr> empty_job_queue"

text \<open>The state \<open>initWorkerThreads\<close> returns, for a call that completes.\<close>

definition after_reconcile :: "worker \<Rightarrow> worker" where
  "after_reconcile s = projr (initWorkerThreads s)"

section \<open>The registry\<close>

lemma map_of_Some_key: "map_of al k = Some v \<Longrightarrow> k \<in> fst ` set al"
  by (force dest: map_of_SomeD)

lemma remove_dead_ok_iff:
  "distinct xs \<Longrightarrow>
     (\<exists>s'. remove_dead xs s = Inr s') \<longleftrightarrow> set xs \<subseteq> fst ` set (worker_threads s)"
proof (induction xs arbitrary: s)
  case Nil
  then show ?case by simp
next
  case (Cons x xs)
  show ?case
  proof (cases "map_of (worker_threads s) x")
    case None
    then have "x \<notin> fst ` set (worker_threads s)"
      by (simp add: map_of_eq_None_iff)
    with None show ?thesis by simp
  next
    case (Some u)
    then have x: "x \<in> fst ` set (worker_threads s)"
      by (rule map_of_Some_key)
    from Cons.prems have nx: "x \<notin> set xs" and d: "distinct xs" by simp_all
    have keys: "fst ` set (AList.delete x (worker_threads s)) = fst ` set (worker_threads s) - {x}"
      using AList.delete_keys [of x "worker_threads s"]
      by (metis list.set_map set_removeAll)
    show ?thesis
      using Some x nx Cons.IH [OF d] keys by auto
  qed
qed

lemma mark_redundant_ok_iff:
  "(\<exists>s'. mark_redundant xs s = Inr s') \<longleftrightarrow> set xs \<subseteq> fst ` set (worker_threads s)"
proof (induction xs arbitrary: s)
  case Nil
  then show ?case by simp
next
  case (Cons x xs)
  show ?case
  proof (cases "map_of (worker_threads s) x")
    case None
    then have "x \<notin> fst ` set (worker_threads s)"
      by (simp add: map_of_eq_None_iff)
    with None show ?thesis by simp
  next
    case (Some u)
    then have x: "x \<in> fst ` set (worker_threads s)"
      by (rule map_of_Some_key)
    have "fst ` set (worker_threads (flag_redundant x u s)) = fst ` set (worker_threads s)"
      using x by (auto simp: flag_redundant_def AList.dom_update)
    with Some x Cons.IH [of "flag_redundant x u s"] show ?thesis by simp
  qed
qed

lemma dense_iff_indices:
  assumes "distinct (map fst reg)"
  shows "keys_dense reg \<longleftrightarrow> set [0..<length reg] \<subseteq> fst ` set reg"
proof
  assume "keys_dense reg"
  then show "set [0..<length reg] \<subseteq> fst ` set reg"
    by (simp add: keys_dense_def)
next
  assume sub: "set [0..<length reg] \<subseteq> fst ` set reg"
  have "card (fst ` set reg) = length reg"
    using assms distinct_card [of "map fst reg"] by simp
  then have "card {0..<length reg} = card (fst ` set reg)" by simp
  with sub have "{0..<length reg} = fst ` set reg"
    by (intro card_subset_eq) auto
  then show "keys_dense reg" by (simp add: keys_dense_def)
qed

lemma remove_dead_distinct:
  "remove_dead xs s = Inr s' \<Longrightarrow> distinct (map fst (worker_threads s)) \<Longrightarrow>
     distinct (map fst (worker_threads s'))"
  by (induction xs arbitrary: s) (auto split: option.splits if_splits simp: AList.distinct_delete)

lemma spawn_missing_distinct:
  "distinct (map fst (worker_threads s)) \<Longrightarrow>
     distinct (map fst (worker_threads (spawn_missing xs s)))"
  by (induction xs arbitrary: s) (auto simp: startWorkerThread_def AList.distinct_update)

lemma spawn_phase_distinct:
  "distinct (map fst (worker_threads s)) \<Longrightarrow>
     distinct (map fst (worker_threads (spawn_phase s)))"
  by (simp add: spawn_phase_def spawn_missing_distinct log_worker_def)

lemma retire_phase_ok_iff:
  assumes "distinct (map fst (worker_threads s))"
  shows "(\<exists>s'. retire_phase s = Inr s') \<longleftrightarrow>
         (NUMBER_OF_WORKERS (settings s) < int (length (worker_threads s)) \<longrightarrow>
            keys_dense (worker_threads s))"
  using assms mark_redundant_ok_iff [of "[0..<length (worker_threads s)]"
      "log_worker ''info''
         ''Worker Threads exceed the configured limit. Marking some for removal...'' [] s"]
  by (simp add: retire_phase_def dense_iff_indices log_worker_def)

text \<open>
  C10. \<open>initWorkerThreads\<close> subscripts the registry with the indices
  \<open>range(len(registry))\<close> in the dead-entry loop and in the retirement loop. For a
  registry (a dict, so its keys are distinct) the call completes without \<open>KeyError\<close>
  if and only if the key set is \<open>{0, ..., len - 1}\<close> at entry to the first loop and,
  when the retirement loop is entered, at entry to that loop as well.
\<close>

theorem initWorkerThreads_completes_iff_dense:
  assumes "distinct (map fst (worker_threads s))"
  shows "(\<exists>s'. initWorkerThreads s = Inr s') \<longleftrightarrow>
         keys_dense (worker_threads s) \<and>
         (\<forall>s1. remove_dead [0..<length (worker_threads s)] s = Inr s1 \<longrightarrow>
               NUMBER_OF_WORKERS (settings (spawn_phase s1))
                 < int (length (worker_threads (spawn_phase s1))) \<longrightarrow>
               keys_dense (worker_threads (spawn_phase s1)))"
proof (cases "remove_dead [0..<length (worker_threads s)] s")
  case (Inl e)
  then have "\<not> (\<exists>s1. remove_dead [0..<length (worker_threads s)] s = Inr s1)" by simp
  then have "\<not> keys_dense (worker_threads s)"
    using remove_dead_ok_iff [of "[0..<length (worker_threads s)]" s] assms
    by (simp add: dense_iff_indices)
  with Inl show ?thesis by (simp add: initWorkerThreads_def)
next
  case (Inr s1)
  then have "\<exists>s1. remove_dead [0..<length (worker_threads s)] s = Inr s1" by blast
  then have dense: "keys_dense (worker_threads s)"
    using remove_dead_ok_iff [of "[0..<length (worker_threads s)]" s] assms
    by (simp add: dense_iff_indices)
  have "distinct (map fst (worker_threads (spawn_phase s1)))"
    using Inr assms by (intro spawn_phase_distinct) (rule remove_dead_distinct)
  from retire_phase_ok_iff [OF this] Inr dense show ?thesis
    by (simp add: initWorkerThreads_def)
qed

lemma pool31_distinct: "distinct (map fst (worker_threads (pool 3 1)))"
  by code_simp

lemma pool31_dense: "keys_dense (worker_threads (pool 3 1))"
  by code_simp

lemma pool31_remove_dead:
  "remove_dead [0..<length (worker_threads (pool 3 1))] (pool 3 1) = Inr (pool 3 1)"
  by code_simp

lemma pool31_dense_retire: "keys_dense (worker_threads (spawn_phase (pool 3 1)))"
  by code_simp

theorem initWorkerThreads_completes_iff_dense_witness:
  "distinct (map fst (worker_threads (pool 3 1))) \<and>
   keys_dense (worker_threads (pool 3 1)) \<and>
   (\<exists>s'. initWorkerThreads (pool 3 1) = Inr s')"
  using initWorkerThreads_completes_iff_dense [of "pool 3 1"]
    pool31_distinct pool31_dense pool31_remove_dead pool31_dense_retire
  by simp

lemma remove_dead_frame:
  "remove_dead xs s = Inr s' \<Longrightarrow>
     settings s' = settings s \<and> remove_list s' = remove_list s"
  by (induction xs arbitrary: s) (auto split: option.splits if_splits)

lemma spawn_missing_frame:
  "settings (spawn_missing xs s) = settings s \<and> remove_list (spawn_missing xs s) = remove_list s"
  by (induction xs arbitrary: s) (auto simp: startWorkerThread_def)

lemma spawn_phase_frame:
  "settings (spawn_phase s) = settings s \<and> remove_list (spawn_phase s) = remove_list s"
  by (simp add: spawn_phase_def spawn_missing_frame log_worker_def)

lemma mark_redundant_Cons:
  "map_of (worker_threads s) x = Some u \<Longrightarrow>
     mark_redundant (x # xs) s = mark_redundant xs (flag_redundant x u s)"
  by (simp add: flag_redundant_def)

lemma mark_redundant_ConsD:
  "mark_redundant (x # xs) s = Inr s' \<Longrightarrow>
     \<exists>u. map_of (worker_threads s) x = Some u \<and> mark_redundant xs (flag_redundant x u s) = Inr s'"
  by (cases "map_of (worker_threads s) x") (simp_all add: flag_redundant_def)

lemma flag_redundant_settings: "settings (flag_redundant x u s) = settings s"
  by (simp add: flag_redundant_def)

lemma flag_redundant_keys:
  "map_of (worker_threads s) x = Some u \<Longrightarrow>
     map fst (worker_threads (flag_redundant x u s)) = map fst (worker_threads s)"
  using map_of_Some_key [of "worker_threads s" x u]
  by (simp add: flag_redundant_def AList.update_keys)

lemma flag_redundant_lookup:
  "map_of (worker_threads s) x = Some u \<Longrightarrow>
     map_of (worker_threads (flag_redundant x u s)) k =
       (if k = x \<and> NUMBER_OF_WORKERS (settings s) \<le> int (threadID u)
        then Some (u\<lparr>redundant_flag := True\<rparr>) else map_of (worker_threads s) k)"
  by (simp add: flag_redundant_def AList.update_conv')

lemma flag_redundant_remove_list:
  "remove_list (flag_redundant x u s) =
     remove_list s @ (if NUMBER_OF_WORKERS (settings s) \<le> int (threadID u) then [x] else [])"
  by (simp add: flag_redundant_def)

lemma mark_redundant_settings:
  "mark_redundant xs s = Inr s' \<Longrightarrow> settings s' = settings s"
proof (induction xs arbitrary: s)
  case Nil
  then show ?case by simp
next
  case (Cons x xs)
  from mark_redundant_ConsD [OF Cons.prems] obtain u
    where "mark_redundant xs (flag_redundant x u s) = Inr s'" by blast
  from Cons.IH [OF this] show ?case by (simp add: flag_redundant_settings)
qed

lemma mark_redundant_keys:
  "mark_redundant xs s = Inr s' \<Longrightarrow> map fst (worker_threads s') = map fst (worker_threads s)"
proof (induction xs arbitrary: s)
  case Nil
  then show ?case by simp
next
  case (Cons x xs)
  from mark_redundant_ConsD [OF Cons.prems] obtain u
    where u: "map_of (worker_threads s) x = Some u"
      and "mark_redundant xs (flag_redundant x u s) = Inr s'" by blast
  from Cons.IH [OF this(2)] flag_redundant_keys [OF u] show ?case by simp
qed

lemma mark_redundant_lookup:
  "mark_redundant xs s = Inr s' \<Longrightarrow>
     map_of (worker_threads s') k =
       map_option
         (\<lambda>u. if k \<in> set xs \<and> NUMBER_OF_WORKERS (settings s) \<le> int (threadID u)
              then u\<lparr>redundant_flag := True\<rparr> else u)
         (map_of (worker_threads s) k)"
proof (induction xs arbitrary: s)
  case Nil
  then show ?case by (simp add: option.map_ident)
next
  case (Cons x xs)
  from mark_redundant_ConsD [OF Cons.prems] obtain u
    where u: "map_of (worker_threads s) x = Some u"
      and r: "mark_redundant xs (flag_redundant x u s) = Inr s'" by blast
  show ?case
    unfolding Cons.IH [OF r] flag_redundant_lookup [OF u] flag_redundant_settings
    using u by (cases "map_of (worker_threads s) k") auto
qed

lemma mark_redundant_threadID:
  "mark_redundant xs s = Inr s' \<Longrightarrow>
     threadID (the (map_of (worker_threads s') k)) = threadID (the (map_of (worker_threads s) k))"
  by (cases "map_of (worker_threads s) k") (simp_all add: mark_redundant_lookup)

lemma mark_redundant_remove_list:
  "mark_redundant xs s = Inr s' \<Longrightarrow>
     remove_list s' =
       remove_list s @
       filter (\<lambda>k. NUMBER_OF_WORKERS (settings s)
                      \<le> int (threadID (the (map_of (worker_threads s) k)))) xs"
proof (induction xs arbitrary: s)
  case Nil
  then show ?case by simp
next
  case (Cons x xs)
  from mark_redundant_ConsD [OF Cons.prems] obtain u
    where u: "map_of (worker_threads s) x = Some u"
      and r: "mark_redundant xs (flag_redundant x u s) = Inr s'" by blast
  have same: "threadID (the (map_of (worker_threads (flag_redundant x u s)) k)) =
              threadID (the (map_of (worker_threads s) k))" for k
    using u by (simp add: flag_redundant_lookup)
  show ?case
    unfolding Cons.IH [OF r] flag_redundant_settings flag_redundant_remove_list same
    using u by simp
qed

text \<open>
  C4 (as amended). When, after dead entries are removed and missing units spawned,
  the registry holds more entries than the target, a call of \<open>initWorkerThreads\<close>
  that completes leaves the retirement flag set on every registered unit whose id is
  at least the target, and appends to \<open>remove_list\<close> the key of every such unit, in
  index order. Neither depends on whether the unit was flagged before: nothing is
  skipped.
\<close>

theorem initWorkerThreads_retires_without_skipping:
  assumes ok: "initWorkerThreads s = Inr s'"
    and dict: "distinct (map fst (worker_threads s))"
    and over: "NUMBER_OF_WORKERS (settings s) < int (length (worker_threads s'))"
  shows "(\<forall>k u. map_of (worker_threads s') k = Some u \<longrightarrow>
                 NUMBER_OF_WORKERS (settings s) \<le> int (threadID u) \<longrightarrow> redundant_flag u) \<and>
         remove_list s' =
           remove_list s @
           filter (\<lambda>k. NUMBER_OF_WORKERS (settings s)
                          \<le> int (threadID (the (map_of (worker_threads s') k))))
             [0..<length (worker_threads s')]"
proof -
  from ok obtain s1 where s1: "remove_dead [0..<length (worker_threads s)] s = Inr s1"
    and r: "retire_phase (spawn_phase s1) = Inr s'"
    by (auto simp: initWorkerThreads_def split: sum.splits)
  define s2 where "s2 = spawn_phase s1"
  define N where "N = NUMBER_OF_WORKERS (settings s)"
  define l where "l = log_worker ''info''
              ''Worker Threads exceed the configured limit. Marking some for removal...'' [] s2"
  have set2: "settings s2 = settings s" and rl2: "remove_list s2 = remove_list s"
    using remove_dead_frame [OF s1] spawn_phase_frame [of s1] by (simp_all add: s2_def)
  have l: "settings l = settings s" "remove_list l = remove_list s"
    "worker_threads l = worker_threads s2"
    using set2 rl2 by (simp_all add: l_def log_worker_def)
  have d2: "distinct (map fst (worker_threads s2))"
    unfolding s2_def using s1 dict by (intro spawn_phase_distinct) (rule remove_dead_distinct)
  have r2: "retire_phase s2 = Inr s'" using r by (simp add: s2_def)
  have len: "length (worker_threads s') = length (worker_threads s2)"
  proof (cases "N < int (length (worker_threads s2))")
    case True
    with r2 set2 have "mark_redundant [0..<length (worker_threads s2)] l = Inr s'"
      by (simp add: retire_phase_def l_def N_def)
    from mark_redundant_keys [OF this] l(3) show ?thesis by (metis length_map)
  next
    case False
    with r2 set2 show ?thesis by (simp add: retire_phase_def N_def)
  qed
  with over have over2: "N < int (length (worker_threads s2))" by (simp add: N_def)
  with r2 set2 have m: "mark_redundant [0..<length (worker_threads s2)] l = Inr s'"
    by (simp add: retire_phase_def l_def N_def)
  have dense: "keys_dense (worker_threads s2)"
    using retire_phase_ok_iff [OF d2] r2 over2 set2 by (auto simp: N_def)
  have keys: "map fst (worker_threads s') = map fst (worker_threads s2)"
    using mark_redundant_keys [OF m] l(3) by simp
  have flags: "redundant_flag u"
    if look: "map_of (worker_threads s') k = Some u" and big: "N \<le> int (threadID u)" for k u
  proof -
    from look have "k \<in> fst ` set (worker_threads s')" by (rule map_of_Some_key)
    with keys have "k \<in> set (map fst (worker_threads s2))" by (metis list.set_map)
    with dense have k: "k \<in> set [0..<length (worker_threads s2)]"
      by (simp add: keys_dense_def)
    from mark_redundant_lookup [OF m, of k] look l k
    obtain v where v: "map_of (worker_threads s2) k = Some v"
      and u: "u = (if N \<le> int (threadID v) then v\<lparr>redundant_flag := True\<rparr> else v)"
      by (cases "map_of (worker_threads s2) k") (auto simp: N_def)
    from u big show ?thesis by (cases "N \<le> int (threadID v)") simp_all
  qed
  have same: "threadID (the (map_of (worker_threads s') k)) =
              threadID (the (map_of (worker_threads s2) k))" for k
    using mark_redundant_threadID [OF m, of k] l(3) by simp
  have "remove_list s' = remove_list s @
           filter (\<lambda>k. N \<le> int (threadID (the (map_of (worker_threads s') k))))
             [0..<length (worker_threads s')]"
    unfolding mark_redundant_remove_list [OF m] l len same N_def ..
  with flags show ?thesis unfolding N_def by blast
qed

lemma flagged_pool_completes:
  "initWorkerThreads flagged_pool = Inr (after_reconcile flagged_pool)"
  unfolding after_reconcile_def by code_simp

lemma flagged_pool_distinct: "distinct (map fst (worker_threads flagged_pool))"
  by code_simp

lemma flagged_pool_over:
  "NUMBER_OF_WORKERS (settings flagged_pool)
     < int (length (worker_threads (after_reconcile flagged_pool)))"
  unfolding after_reconcile_def by code_simp

lemma flagged_pool_unit1:
  "map_of (worker_threads (after_reconcile flagged_pool)) 1
     = Some ((new_thread 1 ''Worker-1'' 2)\<lparr>redundant_flag := True\<rparr>)"
  unfolding after_reconcile_def by code_simp

lemma flagged_pool_filter:
  "filter (\<lambda>k. NUMBER_OF_WORKERS (settings flagged_pool)
                  \<le> int (threadID (the (map_of (worker_threads (after_reconcile flagged_pool)) k))))
     [0..<length (worker_threads (after_reconcile flagged_pool))] = [1]"
  unfolding after_reconcile_def by code_simp

theorem initWorkerThreads_retires_without_skipping_witness:
  "initWorkerThreads flagged_pool = Inr (after_reconcile flagged_pool) \<and>
   distinct (map fst (worker_threads flagged_pool)) \<and>
   NUMBER_OF_WORKERS (settings flagged_pool)
     < int (length (worker_threads (after_reconcile flagged_pool))) \<and>
   redundant_flag ((new_thread 1 ''Worker-1'' 2)\<lparr>redundant_flag := True\<rparr>) \<and>
   remove_list (after_reconcile flagged_pool) = remove_list flagged_pool @ [1]"
  using initWorkerThreads_retires_without_skipping
          [OF flagged_pool_completes flagged_pool_distinct flagged_pool_over]
        flagged_pool_completes flagged_pool_distinct flagged_pool_over
        flagged_pool_unit1 flagged_pool_filter
  by simp

text \<open>
  C4 as stated fails: unit 1 of \<open>flagged_pool\<close> is already flagged and already
  recorded in \<open>remove_list\<close>, and the next call records it a second time.
\<close>

theorem already_signalled_unit_recorded_again:
  "redundant_flag (the (map_of (worker_threads flagged_pool) 1)) \<and>
   remove_list flagged_pool = [1] \<and>
   map_sum fst remove_list (initWorkerThreads flagged_pool) = Inr [1, 1]"
  by code_simp

text \<open>
  C3 fails on the code. With target 3 lowered to 1 while unit 2 converts a task, unit
  1 stops first; the next \<open>initWorkerThreads\<close> deletes key 1 and then subscripts the
  registry with index 1 in the retirement loop. The \<open>KeyError\<close> ends the supervisor,
  and the registry keeps the keys 0 and 2 although the target is 1.
\<close>

theorem shrink_while_high_unit_busy_crashes:
  "map_option (\<lambda>s. (worker_pc s, map fst (worker_threads s), NUMBER_OF_WORKERS (settings s)))
     (run_events ok_engine shrink_schedule (demo_worker 3))
   = Some (Crashed (KeyError 1), [0, 2], 1)"
  by code_simp

section \<open>The status surface\<close>

text \<open>
  C5 fails on the code. After a task whose conversion raised, \<open>current_task\<close> still
  holds that task (the reset of line 124 is skipped by the exception). Once the unit
  has found the queue empty, slept and set \<open>idle\<close>, and while no task is anywhere in
  the queues, \<open>get_status\<close> still reports the file name and the progress of the
  failed task.
\<close>

theorem status_stale_after_exception:
  "map_option
     (\<lambda>s. (map (\<lambda>st. (st_idle st, st_current_file st, map_of (st_progress st) ''percent''))
              (getAllWorkerStatus s),
           task_queue s, complete_queue s, incoming (job_queue s), processed (job_queue s)))
     (run_events raising_engine stale_schedule (demo_worker 1))
   = Some ([(True, ''a.mkv'', Some ''50'')], [], [], [], [])"
  by code_simp

text \<open>
  C9 as stated fails: the receiver of \<open>read_history_log()\<close> is the settings object,
  not the job queue. Here the two hold different histories.
\<close>

theorem history_not_from_job_queue:
  "getAllHistoricalTasks history_worker \<noteq> jq_read_history_log (job_queue history_worker)"
  by code_simp

text \<open>
  C9 (as amended). \<open>getAllHistoricalTasks\<close> returns exactly what the settings
  object's \<open>read_history_log()\<close> returns, whatever the job queue holds.
\<close>

theorem getAllHistoricalTasks_passes_settings_history:
  "getAllHistoricalTasks s = read_history_log (settings s) \<and>
   getAllHistoricalTasks (s\<lparr>job_queue := jq\<rparr>) = read_history_log (settings s)"
  by (simp add: getAllHistoricalTasks_def)

section \<open>Accounting for tasks across the threads\<close>

lemma owned_Nil [simp]: "owned [] = {#}"
  by (simp add: owned_def)

lemma owned_Cons [simp]: "owned (p # reg) = owned_of (snd p) + owned reg"
  by (cases p) (simp add: owned_def)

lemma owned_absent:
  "k \<notin> fst ` set reg \<Longrightarrow> owned (AList.delete k reg) = owned reg"
  by simp

lemma owned_update_present:
  "map_of reg k = Some u \<Longrightarrow> owned (AList.update k u' reg) + owned_of u = owned reg + owned_of u'"
  by (induction reg) (auto split: if_splits)

lemma owned_update_absent:
  "map_of reg k = None \<Longrightarrow> owned (AList.update k u' reg) = owned reg + owned_of u'"
  by (induction reg) (auto split: if_splits)

lemma owned_delete:
  "distinct (map fst reg) \<Longrightarrow> map_of reg k = Some u \<Longrightarrow>
     owned (AList.delete k reg) + owned_of u = owned reg"
proof (induction reg)
  case Nil
  then show ?case by simp
next
  case (Cons p reg)
  show ?case
  proof (cases "fst p = k")
    case True
    with Cons.prems have "k \<notin> fst ` set reg" "snd p = u" by auto
    with True show ?thesis by (simp add: AList.delete_id)
  next
    case False
    with Cons show ?thesis by simp
  qed
qed

lemma owned_of_dead: "\<not> isAlive u \<Longrightarrow> owned_of u = {#}"
  by (simp add: isAlive_def owned_of_def)

lemma owned_of_flag [simp]: "owned_of (u\<lparr>redundant_flag := b\<rparr>) = owned_of u"
  by (simp add: owned_of_def)

lemma owned_of_new [simp]: "owned_of (new_thread i nm j) = {#}"
  by (simp add: owned_of_def new_thread_def)

lemma remove_dead_preserves:
  assumes del: "\<And>k u s. map_of (worker_threads s) k = Some u \<Longrightarrow> \<not> isAlive u \<Longrightarrow> Q s \<Longrightarrow>
                  Q (s\<lparr>worker_threads := AList.delete k (worker_threads s)\<rparr>)"
    and "Q s"
  shows "Q (result_state (remove_dead xs s))"
  using assms(2)
proof (induction xs arbitrary: s)
  case Nil
  then show ?case by (simp add: result_state_def)
next
  case (Cons x xs)
  show ?case
  proof (cases "map_of (worker_threads s) x")
    case None
    with Cons.prems show ?thesis by (simp add: result_state_def)
  next
    case (Some u)
    show ?thesis
    proof (cases "isAlive u")
      case True
      with Some Cons show ?thesis by simp
    next
      case False
      from del [OF Some False Cons.prems] Cons.IH Some False show ?thesis by simp
    qed
  qed
qed

lemma mark_redundant_preserves:
  assumes flag: "\<And>k u s. map_of (worker_threads s) k = Some u \<Longrightarrow> Q s \<Longrightarrow>
                  Q (flag_redundant k u s)"
    and "Q s"
  shows "Q (result_state (mark_redundant xs s))"
  using assms(2)
proof (induction xs arbitrary: s)
  case Nil
  then show ?case by (simp add: result_state_def)
next
  case (Cons x xs)
  show ?case
  proof (cases "map_of (worker_threads s) x")
    case None
    with Cons.prems show ?thesis by (simp add: result_state_def)
  next
    case (Some u)
    from flag [OF Some Cons.prems] Cons.IH Some show ?thesis by simp
  qed
qed

lemma spawn_missing_preserves:
  assumes start: "\<And>i s. i \<notin> fst ` set (worker_threads s) \<Longrightarrow> Q s \<Longrightarrow> Q (startWorkerThread i s)"
    and "Q s"
  shows "Q (spawn_missing xs s)"
  using assms(2)
proof (induction xs arbitrary: s)
  case Nil
  then show ?case by simp
next
  case (Cons x xs)
  then show ?case using start by simp
qed

lemma initWorkerThreads_preserves:
  assumes del: "\<And>k u s. map_of (worker_threads s) k = Some u \<Longrightarrow> \<not> isAlive u \<Longrightarrow> Q s \<Longrightarrow>
                  Q (s\<lparr>worker_threads := AList.delete k (worker_threads s)\<rparr>)"
    and flag: "\<And>k u s. map_of (worker_threads s) k = Some u \<Longrightarrow> Q s \<Longrightarrow>
                  Q (flag_redundant k u s)"
    and start: "\<And>i s. i \<notin> fst ` set (worker_threads s) \<Longrightarrow> Q s \<Longrightarrow> Q (startWorkerThread i s)"
    and log: "\<And>lv m m2 s. Q s \<Longrightarrow> Q (log_worker lv m m2 s)"
    and "Q s"
  shows "Q (result_state (initWorkerThreads s))"
proof (cases "remove_dead [0..<length (worker_threads s)] s")
  case (Inl a)
  with remove_dead_preserves [of Q s "[0..<length (worker_threads s)]"] del assms(5)
  show ?thesis by (simp add: initWorkerThreads_def)
next
  case (Inr s1)
  with remove_dead_preserves [of Q s "[0..<length (worker_threads s)]"] del assms(5)
  have q1: "Q s1" by (simp add: result_state_def)
  have q2: "Q (spawn_phase s1)"
    unfolding spawn_phase_def using q1 log start spawn_missing_preserves [of Q] by simp
  have "Q (result_state (retire_phase (spawn_phase s1)))"
    unfolding retire_phase_def using q2 log flag mark_redundant_preserves [of Q]
    by (simp add: result_state_def)
  with Inr show ?thesis by (simp add: initWorkerThreads_def)
qed


lemma initWorkerThreads_frame:
  assumes "distinct (map fst (worker_threads s))"
  shows "distinct (map fst (worker_threads (result_state (initWorkerThreads s)))) \<and>
         owned (worker_threads (result_state (initWorkerThreads s))) = owned (worker_threads s) \<and>
         job_queue (result_state (initWorkerThreads s)) = job_queue s \<and>
         task_queue (result_state (initWorkerThreads s)) = task_queue s \<and>
         complete_queue (result_state (initWorkerThreads s)) = complete_queue s \<and>
         worker_pc (result_state (initWorkerThreads s)) = worker_pc s \<and>
         settings (result_state (initWorkerThreads s)) = settings s \<and>
         abort_flag (result_state (initWorkerThreads s)) = abort_flag s"
proof -
  define Q :: "worker \<Rightarrow> bool" where "Q = (\<lambda>x. distinct (map fst (worker_threads x)) \<and>
         owned (worker_threads x) = owned (worker_threads s) \<and>
         job_queue x = job_queue s \<and> task_queue x = task_queue s \<and>
         complete_queue x = complete_queue s \<and> worker_pc x = worker_pc s \<and>
         settings x = settings s \<and> abort_flag x = abort_flag s)"
  have del: "Q (x\<lparr>worker_threads := AList.delete k (worker_threads x)\<rparr>)"
    if "map_of (worker_threads x) k = Some u" "\<not> isAlive u" "Q x" for k u x
    using that owned_delete [of "worker_threads x" k u] owned_of_dead [of u]
    by (simp add: Q_def AList.distinct_delete)
  have flag: "Q (flag_redundant k u x)"
    if "map_of (worker_threads x) k = Some u" "Q x" for k u x
    using that owned_update_present [of "worker_threads x" k u "u\<lparr>redundant_flag := True\<rparr>"]
    by (simp add: Q_def flag_redundant_def AList.distinct_update)
  have start: "Q (startWorkerThread i x)"
    if "i \<notin> fst ` set (worker_threads x)" "Q x" for i x
  proof -
    from that(1) have "map_of (worker_threads x) i = None"
      by (simp add: map_of_eq_None_iff)
    from owned_update_absent [OF this] that(2) show ?thesis
      by (simp add: Q_def startWorkerThread_def AList.distinct_update)
  qed
  have log: "Q (log_worker lv m m2 x)" if "Q x" for lv m m2 x
    using that by (simp add: Q_def log_worker_def)
  have "Q s" using assms by (simp add: Q_def)
  from initWorkerThreads_preserves [of Q, OF del flag start log this]
  show ?thesis by (simp add: Q_def)
qed

lemma log_unit_fields [simp]:
  "pc (log_unit lv m m2 u) = pc u"
  "current_task (log_unit lv m m2 u) = current_task u"
  "redundant_flag (log_unit lv m m2 u) = redundant_flag u"
  "idle (log_unit lv m m2 u) = idle u"
  "threadID (log_unit lv m m2 u) = threadID u"
  "name (log_unit lv m m2 u) = name u"
  "ident (log_unit lv m m2 u) = ident u"
  "logger (log_unit lv m m2 u) = logger u @ [log_line lv m m2]"
  by (simp_all add: log_unit_def)

lemma process_item_props:
  assumes "process_item eng u t = (u', t', r)"
  shows "tid t' = tid t" "success t' = success t" "source_abspath t' = source_abspath t"
    "source_basename t' = source_basename t" "cache_path t' = cache_path t"
    "pc u' = pc u" "redundant_flag u' = redundant_flag u" "idle u' = idle u"
    "threadID u' = threadID u" "name u' = name u" "ident u' = ident u"
    "current_task u = Task t \<Longrightarrow> current_task u' = Task t'"
  using assms
  by (auto simp: process_item_def Let_def split: option.splits sum.splits prod.splits
      bool.splits if_splits)

lemma run_step_conserve:
  assumes "run_step eng u tq cq = Some (u', tq', cq')"
  shows "mset (map tid tq') + owned_of u' + mset (map tid cq') +
           (if raises eng u then owned_of u else {#})
         = mset (map tid tq) + owned_of u + mset (map tid cq)"
proof (cases "pc u")
  case Processing
  show ?thesis
  proof (cases "current_task u")
    case (Task t)
    obtain v t' r where p: "process_item eng u t = (v, t', r)"
      by (cases "process_item eng u t") auto
    note props = process_item_props [OF p]
    show ?thesis
    proof (cases r)
      case (Inl e)
      with assms Processing Task p show ?thesis
        by (auto simp: run_step_def owned_of_def raises_def)
    next
      case (Inr b)
      with assms Processing Task p props(1) show ?thesis
        by (auto simp: run_step_def owned_of_def raises_def)
    qed
  next
    case PyNone
    with assms Processing show ?thesis
      by (auto simp: run_step_def owned_of_def raises_def)
  next
    case EmptyDict
    with assms Processing show ?thesis
      by (auto simp: run_step_def owned_of_def raises_def)
  qed
next
  case TryBody
  with assms show ?thesis
    by (cases tq) (auto simp: run_step_def owned_of_def raises_def)
qed (use assms in \<open>auto simp: run_step_def owned_of_def raises_def split: if_splits\<close>)


lemma conserve_algebra:
  fixes A :: "'a multiset"
  assumes "A + ou' + C + L = A0 + ou + C0" and "O' + ou = O0 + ou'"
  shows "I + H + A + O' + C + P + L = I + H + A0 + O0 + C0 + P"
proof (rule multiset_eqI)
  fix x
  from assms have "count (A + ou' + C + L) x = count (A0 + ou + C0) x"
    and "count (O' + ou) x = count (O0 + ou') x" by simp_all
  then show "count (I + H + A + O' + C + P + L) x = count (I + H + A0 + O0 + C0 + P) x"
    by simp
qed

lemma unit_step_pipeline:
  assumes "unit_step eng k s = Some s'"
  shows "pipeline s' + lost eng (UnitStep k) s = pipeline s"
proof -
  from assms obtain u u' tq cq where u: "map_of (worker_threads s) k = Some u"
    and r: "run_step eng u (task_queue s) (complete_queue s) = Some (u', tq, cq)"
    and s': "s' = s\<lparr>worker_threads := AList.update k u' (worker_threads s),
                     task_queue := tq, complete_queue := cq\<rparr>"
    by (auto simp: unit_step_def split: option.splits)
  have l: "lost eng (UnitStep k) s = (if raises eng u then owned_of u else {#})"
    using u by (simp add: lost_def)
  show ?thesis
    unfolding pipeline_def l s'
    using conserve_algebra [OF run_step_conserve [OF r] owned_update_present [OF u, of u']]
    by simp
qed

lemma unit_stepD:
  assumes "unit_step eng k s = Some s'"
  obtains u u' tq cq where "map_of (worker_threads s) k = Some u"
    and "run_step eng u (task_queue s) (complete_queue s) = Some (u', tq, cq)"
    and "s' = s\<lparr>worker_threads := AList.update k u' (worker_threads s),
                  task_queue := tq, complete_queue := cq\<rparr>"
  using assms by (auto simp: unit_step_def split: option.splits)

lemma unit_step_frame:
  assumes "unit_step eng k s = Some s'"
  shows "job_queue s' = job_queue s" "worker_pc s' = worker_pc s" "settings s' = settings s"
    "abort_flag s' = abort_flag s" "remove_list s' = remove_list s"
    "map fst (worker_threads s') = map fst (worker_threads s)"
proof -
  from assms obtain u u' tq cq where u: "map_of (worker_threads s) k = Some u"
    and s': "s' = s\<lparr>worker_threads := AList.update k u' (worker_threads s),
                  task_queue := tq, complete_queue := cq\<rparr>"
    by (rule unit_stepD)
  from map_of_Some_key [OF u] have "k \<in> set (map fst (worker_threads s))" by simp
  then show "map fst (worker_threads s') = map fst (worker_threads s)"
    by (simp add: s' AList.update_keys)
  show "job_queue s' = job_queue s" "worker_pc s' = worker_pc s" "settings s' = settings s"
    "abort_flag s' = abort_flag s" "remove_list s' = remove_list s"
    by (simp_all add: s')
qed

lemma Worker_run_step_pipeline:
  assumes "Worker_run_step s = Some s'" and d: "distinct (map fst (worker_threads s))"
  shows "pipeline s' = pipeline s \<and> distinct (map fst (worker_threads s'))"
proof (cases "worker_pc s")
  case Reconcile
  from initWorkerThreads_frame [OF d] assms(1) Reconcile show ?thesis
    by (cases "initWorkerThreads s")
       (auto simp: Worker_run_step_def result_state_def pipeline_def held_def)
next
  case DispatchReconcile
  from initWorkerThreads_frame [OF d] assms(1) DispatchReconcile show ?thesis
    by (cases "initWorkerThreads s")
       (auto simp: Worker_run_step_def result_state_def pipeline_def held_def)
next
  case DrainPop
  with assms show ?thesis
    by (cases "complete_queue s")
       (auto simp: Worker_run_step_def pipeline_def held_def mark_item_as_processed_def)
next
  case DispatchGet
  with assms show ?thesis
    by (cases "incoming (job_queue s)")
       (auto simp: Worker_run_step_def pipeline_def held_def get_next_incoming_item_def
          log_worker_def)
next
  case (DispatchPut t)
  with assms show ?thesis
    by (auto simp: Worker_run_step_def pipeline_def held_def add_to_task_queue_def
          split: if_splits)
qed (use assms in \<open>auto simp: Worker_run_step_def pipeline_def held_def log_worker_def
       split: if_splits\<close>)

lemma exec_pipeline:
  assumes "exec eng ev s = Some s'" and d: "distinct (map fst (worker_threads s))"
  shows "pipeline s' + lost eng ev s = pipeline s + arrived ev s"
proof (cases ev)
  case (UnitStep k)
  with assms unit_step_pipeline [of eng k s s'] show ?thesis
    by (simp add: arrived_def)
next
  case SupStep
  with assms Worker_run_step_pipeline [of s s'] show ?thesis
    by (simp add: arrived_def lost_def)
next
  case (SetWorkers n)
  with assms show ?thesis by (auto simp: arrived_def lost_def pipeline_def)
next
  case SetAbort
  with assms show ?thesis by (auto simp: arrived_def lost_def pipeline_def)
next
  case (NewItem t)
  with assms show ?thesis by (auto simp: arrived_def lost_def pipeline_def new_item_def)
qed

lemma Worker_run_step_next_tid:
  assumes "Worker_run_step s = Some s'" and d: "distinct (map fst (worker_threads s))"
  shows "next_tid (job_queue s') = next_tid (job_queue s)"
proof (cases "worker_pc s")
  case Reconcile
  from initWorkerThreads_frame [OF d] assms(1) Reconcile show ?thesis
    by (cases "initWorkerThreads s") (auto simp: Worker_run_step_def result_state_def)
next
  case DispatchReconcile
  from initWorkerThreads_frame [OF d] assms(1) DispatchReconcile show ?thesis
    by (cases "initWorkerThreads s") (auto simp: Worker_run_step_def result_state_def)
next
  case DrainPop
  with assms show ?thesis
    by (cases "complete_queue s") (auto simp: Worker_run_step_def mark_item_as_processed_def)
next
  case DispatchGet
  with assms show ?thesis
    by (cases "incoming (job_queue s)")
       (auto simp: Worker_run_step_def get_next_incoming_item_def log_worker_def)
next
  case (DispatchPut t)
  with assms show ?thesis
    by (auto simp: Worker_run_step_def add_to_task_queue_def split: if_splits)
qed (use assms in \<open>auto simp: Worker_run_step_def log_worker_def split: if_splits\<close>)

lemma mset_upt_Suc: "mset [0..<Suc n] = mset [0..<n] + {#n#}"
proof -
  have "[0..<Suc n] = [0..<n] @ [n]" by simp
  then show ?thesis by (simp only: mset_append mset.simps)
qed

lemma exec_next_tid:
  assumes "exec eng ev s = Some s'" and d: "distinct (map fst (worker_threads s))"
  shows "mset [0..<next_tid (job_queue s')] = mset [0..<next_tid (job_queue s)] + arrived ev s"
proof (cases ev)
  case (UnitStep k)
  with assms unit_step_frame(1) [of eng k s s'] show ?thesis by (simp add: arrived_def)
next
  case SupStep
  with assms Worker_run_step_next_tid [of s s'] show ?thesis by (simp add: arrived_def)
next
  case (SetWorkers n)
  with assms show ?thesis by (auto simp: arrived_def)
next
  case SetAbort
  with assms show ?thesis by (auto simp: arrived_def)
next
  case (NewItem t)
  with assms have "next_tid (job_queue s') = Suc (next_tid (job_queue s))"
    by (auto simp: new_item_def)
  with NewItem show ?thesis by (simp only: mset_upt_Suc arrived_def event.case)
qed

lemma exec_distinct:
  assumes "exec eng ev s = Some s'" and d: "distinct (map fst (worker_threads s))"
  shows "distinct (map fst (worker_threads s'))"
proof (cases ev)
  case (UnitStep k)
  with assms unit_step_frame(6) [of eng k s s'] show ?thesis by simp
next
  case SupStep
  with assms Worker_run_step_pipeline [of s s'] show ?thesis by simp
qed (use assms in auto)

text \<open>
  Every task identity given out so far is in at most one place of the pipeline, or
  belongs to a task dropped by an exception.
\<close>

lemma run_events_accounting:
  assumes "run_events eng evs s = Some s'" and "distinct (map fst (worker_threads s))"
    and "pipeline s + F \<subseteq># mset [0..<next_tid (job_queue s)]"
  shows "pipeline s' + (F + failures eng evs s) \<subseteq># mset [0..<next_tid (job_queue s')] \<and>
         distinct (map fst (worker_threads s'))"
  using assms
proof (induction evs arbitrary: s F)
  case Nil
  then show ?case by simp
next
  case (Cons ev evs)
  from Cons.prems(1) obtain s1 where e: "exec eng ev s = Some s1"
    and r: "run_events eng evs s1 = Some s'"
    by (auto split: option.splits)
  note p = exec_pipeline [OF e Cons.prems(2)]
  note n = exec_next_tid [OF e Cons.prems(2)]
  note d = exec_distinct [OF e Cons.prems(2)]
  have "pipeline s1 + (F + lost eng ev s) = (pipeline s + F) + arrived ev s"
    using p by (metis add.assoc add.commute)
  also have "\<dots> \<subseteq># mset [0..<next_tid (job_queue s)] + arrived ev s"
    using Cons.prems(3) by (simp only: mset_subset_eq_mono_add_right_cancel)
  finally have "pipeline s1 + (F + lost eng ev s) \<subseteq># mset [0..<next_tid (job_queue s1)]"
    using n by simp
  from Cons.IH [OF r d this] e show ?case
    by (simp add: add.assoc)
qed







lemma run_step_task_queue:
  assumes "run_step eng u tq cq = Some (u', tq', cq')"
  shows "tq' = tq \<or> (\<exists>t. tq = t # tq')"
  using assms
  by (cases "pc u")
     (auto simp: run_step_def split: if_splits list.splits current.splits prod.splits sum.splits)

lemma unit_step_handoff:
  assumes "unit_step eng k s = Some s'" and "handoff_ok s"
  shows "handoff_ok s'"
proof -
  from assms(1) obtain u u' tq cq where
    r: "run_step eng u (task_queue s) (complete_queue s) = Some (u', tq, cq)"
    and s': "s' = s\<lparr>worker_threads := AList.update k u' (worker_threads s),
                  task_queue := tq, complete_queue := cq\<rparr>"
    by (rule unit_stepD)
  from run_step_task_queue [OF r] assms(2) show ?thesis
    by (auto simp: s' handoff_ok_def split: if_splits)
qed

lemma Worker_run_step_handoff:
  assumes "Worker_run_step s = Some s'" and d: "distinct (map fst (worker_threads s))"
    and h: "handoff_ok s"
  shows "handoff_ok s'"
proof (cases "worker_pc s")
  case Reconcile
  from initWorkerThreads_frame [OF d] assms(1) h Reconcile show ?thesis
    by (cases "initWorkerThreads s")
       (auto simp: Worker_run_step_def result_state_def handoff_ok_def held_def)
next
  case DispatchReconcile
  from initWorkerThreads_frame [OF d] assms(1) h DispatchReconcile show ?thesis
    by (cases "initWorkerThreads s")
       (auto simp: Worker_run_step_def result_state_def handoff_ok_def held_def)
next
  case DrainPop
  with assms show ?thesis
    by (cases "complete_queue s") (auto simp: Worker_run_step_def handoff_ok_def held_def)
next
  case DispatchFull
  with assms show ?thesis
    by (cases "task_queue s")
       (auto simp: Worker_run_step_def handoff_ok_def held_def full_def maxsize_def
             split: if_splits)
next
  case DispatchGet
  with assms show ?thesis
    by (cases "incoming (job_queue s)")
       (auto simp: Worker_run_step_def get_next_incoming_item_def log_worker_def
          handoff_ok_def held_def)
next
  case (DispatchPut t)
  with assms show ?thesis
    by (auto simp: Worker_run_step_def add_to_task_queue_def handoff_ok_def held_def
          split: if_splits)
qed (use assms in \<open>auto simp: Worker_run_step_def log_worker_def handoff_ok_def held_def
       split: if_splits\<close>)

lemma exec_handoff:
  assumes "exec eng ev s = Some s'" and "distinct (map fst (worker_threads s))"
    and "handoff_ok s"
  shows "handoff_ok s'"
proof (cases ev)
  case (UnitStep k)
  with assms unit_step_handoff [of eng k s s'] show ?thesis by simp
next
  case SupStep
  with assms Worker_run_step_handoff [of s s'] show ?thesis by simp
qed (use assms in \<open>auto simp: handoff_ok_def\<close>)

lemma run_events_handoff:
  assumes "run_events eng evs s = Some s'" and "distinct (map fst (worker_threads s))"
    and "handoff_ok s"
  shows "handoff_ok s'"
  using assms
proof (induction evs arbitrary: s)
  case Nil
  then show ?case by simp
next
  case (Cons ev evs)
  from Cons.prems(1) obtain s1 where e: "exec eng ev s = Some s1"
    and r: "run_events eng evs s1 = Some s'"
    by (auto split: option.splits)
  from Cons.IH [OF r exec_distinct [OF e Cons.prems(2)] exec_handoff [OF e Cons.prems(2,3)]]
  show ?case .
qed

text \<open>
  C2. In every state an execution from the freshly constructed supervisor can reach,
  \<open>task_queue\<close> holds at most one task; counting the task the supervisor holds
  between \<open>get_next_incoming_item()\<close> and \<open>put\<close>, it is still at most one, so the
  \<open>put\<close> of line 186 never finds the queue full.
\<close>

theorem handoff_queue_at_most_one:
  assumes "run_events eng evs (init_worker st jq) = Some s"
  shows "length (task_queue s) \<le> 1 \<and>
         length (task_queue s) + size (held (worker_pc s)) \<le> 1"
proof -
  have "handoff_ok (init_worker st jq)"
    by (simp add: handoff_ok_def init_worker_def held_def)
  moreover have "distinct (map fst (worker_threads (init_worker st jq)))"
    by (simp add: init_worker_def)
  ultimately have "handoff_ok s"
    using run_events_handoff [OF assms] by simp
  then show ?thesis by (simp add: handoff_ok_def)
qed

lemma init_pipeline:
  "wf_job_queue jq \<Longrightarrow>
     pipeline (init_worker st jq) \<subseteq># mset [0..<next_tid (job_queue (init_worker st jq))]"
  by (simp add: wf_job_queue_def pipeline_def init_worker_def held_def)

lemma run_from_init_accounting:
  assumes "wf_job_queue jq" and "run_events eng evs (init_worker st jq) = Some s"
  shows "pipeline s + failures eng evs (init_worker st jq)
           \<subseteq># mset [0..<next_tid (job_queue s)]"
proof -
  have "distinct (map fst (worker_threads (init_worker st jq)))"
    by (simp add: init_worker_def)
  moreover have "pipeline (init_worker st jq) + {#}
                   \<subseteq># mset [0..<next_tid (job_queue (init_worker st jq))]"
    using init_pipeline [OF assms(1)] by simp
  ultimately show ?thesis
    using run_events_accounting [OF assms(2), of "{#}"] by simp
qed

lemma count_upt_le_1: "count (mset [0..<n]) x \<le> 1"
  by (simp add: count_mset_set')




text \<open>
  C7. A task whose processing raised (an identity in \<open>failures\<close>) raised once, and in
  every state reached afterwards it is in no place of the pipeline: not on
  \<open>complete_queue\<close>, not among the items reported to the job queue, not back on
  \<open>task_queue\<close> or among the incoming items, and not owned by a unit.
\<close>

theorem failed_task_leaves_pipeline:
  assumes "wf_job_queue jq" and "run_events eng evs (init_worker st jq) = Some s"
    and "x \<in># failures eng evs (init_worker st jq)"
  shows "count (failures eng evs (init_worker st jq)) x = 1 \<and>
         x \<notin># pipeline s \<and>
         x \<notin> tid ` set (complete_queue s) \<and>
         x \<notin> tid ` set (processed (job_queue s)) \<and>
         x \<notin> tid ` set (task_queue s) \<and>
         x \<notin> tid ` set (incoming (job_queue s))"
proof -
  from run_from_init_accounting [OF assms(1,2)]
  have "count (pipeline s + failures eng evs (init_worker st jq)) x
          \<le> count (mset [0..<next_tid (job_queue s)]) x"
    by (rule mset_subset_eq_count)
  with count_upt_le_1 [of "next_tid (job_queue s)" x]
  have le: "count (pipeline s) x + count (failures eng evs (init_worker st jq)) x \<le> 1"
    by simp
  from assms(3) have pos: "count (failures eng evs (init_worker st jq)) x \<noteq> 0"
    by (simp add: count_eq_zero_iff)
  from le pos have one: "count (failures eng evs (init_worker st jq)) x = 1"
    and zero: "count (pipeline s) x = 0" by arith+
  from zero have out: "x \<notin># pipeline s" by (simp add: count_eq_zero_iff)
  from zero have parts: "count (mset (map tid (complete_queue s))) x = 0"
    "count (mset (map tid (processed (job_queue s)))) x = 0"
    "count (mset (map tid (task_queue s))) x = 0"
    "count (mset (map tid (incoming (job_queue s)))) x = 0"
    by (simp_all add: pipeline_def)
  have "x \<notin> tid ` set (complete_queue s)"
    using parts(1) by (simp only: count_mset_0_iff set_map not_False_eq_True)
  moreover have "x \<notin> tid ` set (processed (job_queue s))"
    using parts(2) by (simp only: count_mset_0_iff set_map not_False_eq_True)
  moreover have "x \<notin> tid ` set (task_queue s)"
    using parts(3) by (simp only: count_mset_0_iff set_map not_False_eq_True)
  moreover have "x \<notin> tid ` set (incoming (job_queue s))"
    using parts(4) by (simp only: count_mset_0_iff set_map not_False_eq_True)
  ultimately show ?thesis using one out by simp
qed

lemma wf_empty: "wf_job_queue empty_job_queue"
  by code_simp

lemma handoff_runs:
  "run_events ok_engine handoff_schedule (demo_worker 1)
     = Some (final_state ok_engine handoff_schedule (demo_worker 1))"
  by code_simp

lemma handoff_len:
  "length (task_queue (final_state ok_engine handoff_schedule (demo_worker 1))) = 1"
  by code_simp

theorem handoff_queue_at_most_one_witness:
  "run_events ok_engine handoff_schedule (demo_worker 1)
     = Some (final_state ok_engine handoff_schedule (demo_worker 1)) \<and>
   length (task_queue (final_state ok_engine handoff_schedule (demo_worker 1))) = 1 \<and>
   length (task_queue (final_state ok_engine handoff_schedule (demo_worker 1)))
     + size (held (worker_pc (final_state ok_engine handoff_schedule (demo_worker 1)))) \<le> 1"
  using handoff_queue_at_most_one [OF handoff_runs [unfolded demo_worker_def]]
    handoff_runs handoff_len
  by (simp add: demo_worker_def)





lemma stale_runs:
  "run_events raising_engine stale_schedule (demo_worker 1)
     = Some (final_state raising_engine stale_schedule (demo_worker 1))"
  by code_simp

lemma stale_failure: "0 \<in># failures raising_engine stale_schedule (demo_worker 1)"
  by code_simp

theorem failed_task_leaves_pipeline_witness:
  "wf_job_queue empty_job_queue \<and>
   run_events raising_engine stale_schedule (demo_worker 1)
     = Some (final_state raising_engine stale_schedule (demo_worker 1)) \<and>
   0 \<in># failures raising_engine stale_schedule (demo_worker 1) \<and>
   0 \<notin># pipeline (final_state raising_engine stale_schedule (demo_worker 1)) \<and>
   0 \<notin> tid ` set (complete_queue (final_state raising_engine stale_schedule (demo_worker 1))) \<and>
   0 \<notin> tid ` set (processed (job_queue
           (final_state raising_engine stale_schedule (demo_worker 1))))"
proof -
  note T = failed_task_leaves_pipeline
          [OF wf_empty stale_runs [unfolded demo_worker_def]
              stale_failure [unfolded demo_worker_def], folded demo_worker_def]
  from T wf_empty stale_runs stale_failure show ?thesis by blast
qed

section \<open>Retirement\<close>









lemma exec_registry_env:
  assumes "exec eng ev s = Some s'" and "ev = SetWorkers n \<or> ev = SetAbort \<or> ev = NewItem t"
  shows "worker_threads s' = worker_threads s \<and> next_ident s' = next_ident s"
  using assms by auto



lemma process_item_outcome:
  "snd (snd (process_item eng u t)) = snd (snd (process_item eng v t))"
  by (auto simp: process_item_def Let_def split: option.splits sum.splits prod.splits bool.splits)

lemma raises_flag [simp]: "raises eng (u\<lparr>redundant_flag := b\<rparr>) = raises eng u"
  using process_item_outcome [of eng "u\<lparr>redundant_flag := b\<rparr>" _ u]
  by (auto simp: raises_def split: current.splits)






















section \<open>Exceptions while processing\<close>

lemma refs_Nil [simp]: "refs [] = {#}"
  by (simp add: refs_def)

lemma refs_Cons [simp]: "refs (p # reg) = refs_of (snd p) + refs reg"
  by (cases p) (simp add: refs_def)






lemma refs_of_flag [simp]: "refs_of (u\<lparr>redundant_flag := b\<rparr>) = refs_of u"
  by (simp add: refs_of_def)

lemma refs_of_new [simp]: "refs_of (new_thread i nm j) = {#}"
  by (simp add: refs_of_def new_thread_def)













lemma untouched_flag [simp]: "untouched t (u\<lparr>redundant_flag := b\<rparr>) = untouched t u"
  by (simp add: untouched_def split: current.splits)

lemma untouched_new [simp]: "untouched t (new_thread i nm j)"
  by (simp add: untouched_def new_thread_def)








lemma engine_raises_process_item:
  assumes "engine_raises eng t"
  shows "\<exists>w t' e. process_item eng u t = (w, t', Inl e) \<and> tid t' = tid t \<and>
           success t' = success t \<and>
           (current_task u = Task t \<longrightarrow> current_task w = Task t') \<and>
           pc w = pc u \<and> name w = name u \<and> redundant_flag w = redundant_flag u"
proof -
  obtain w t' r where p: "process_item eng u t = (w, t', r)"
    by (cases "process_item eng u t") auto
  from assms p obtain e where "r = Inl e"
    by (cases r)
       (auto simp: engine_raises_def process_item_def Let_def
             split: option.splits sum.splits prod.splits bool.splits if_splits)
  with p process_item_props [OF p] show ?thesis by auto
qed

lemma engine_raises_raises:
  "engine_raises eng t \<Longrightarrow> pc u = Processing \<Longrightarrow> current_task u = Task t \<Longrightarrow> raises eng u"
proof -
  assume a: "engine_raises eng t" "pc u = Processing" "current_task u = Task t"
  from engine_raises_process_item [OF a(1), of u] obtain w t' e
    where "process_item eng u t = (w, t', Inl e)" by blast
  with a show ?thesis by (simp add: raises_def)
qed












end
